theory Spec2Isabelle
  imports Complex_Main "HOL-Library.AList"
begin

section \<open>Python values, dictionaries and exceptions\<close>

text \<open>
  The exceptions the modelled code can meet.  The first three are raised by the Python
  runtime (\<^verbatim>\<open>del d[k]\<close> on a missing key, an attribute an object does not have, a
  comparison between unordered types).  The others come from \<^verbatim>\<open>app.domain.errors\<close>
  and from the case service; \<open>OtherException\<close> is any exception that is not a
  \<^verbatim>\<open>DomainError\<close>.
\<close>

datatype py_exn =
    KeyError | AttributeError | TypeError
  | CaseNotFound | CaseMissingFile | CaseExtractionFailed | AnalysisJobNotFound
  | DomainError
  | OtherException

text \<open>
  The named domain exceptions are taken to be subclasses of \<^verbatim>\<open>DomainError\<close>: the
  routes list them before the \<^verbatim>\<open>except DomainError\<close> handler.
\<close>

fun is_DomainError :: "py_exn \<Rightarrow> bool" where
  "is_DomainError CaseNotFound = True"
| "is_DomainError CaseMissingFile = True"
| "is_DomainError CaseExtractionFailed = True"
| "is_DomainError AnalysisJobNotFound = True"
| "is_DomainError DomainError = True"
| "is_DomainError _ = False"

text \<open>
  A value of type \<^verbatim>\<open>Any\<close>: Python's \<^verbatim>\<open>None\<close>, or an object of the payload type.
\<close>

datatype 'a py_any = PyNone | PyObj 'a

text \<open>
  A \<^verbatim>\<open>dict\<close> is an association list in insertion order.  \<^verbatim>\<open>d[k] = v\<close> is
  \<^const>\<open>AList.update\<close> (in place for a key that is there, at the end for a new one),
  \<^verbatim>\<open>d.get(k)\<close> is \<^const>\<open>map_of\<close>, \<^verbatim>\<open>d.pop(k, None)\<close> is \<^const>\<open>AList.delete\<close>, and
  \<^verbatim>\<open>del d[k]\<close> raises \<^verbatim>\<open>KeyError\<close> for a key that is not there.  The keys of a
  dictionary are distinct.
\<close>

definition py_del :: "'k \<Rightarrow> ('k \<times> 'v) list \<Rightarrow> py_exn + ('k \<times> 'v) list" where
  "py_del k d = (case map_of d k of None \<Rightarrow> Inl KeyError | Some _ \<Rightarrow> Inr (AList.delete k d))"

text \<open>\<^verbatim>\<open>k.startswith(prefix)\<close>.\<close>

fun startswith :: "string \<Rightarrow> string \<Rightarrow> bool" where
  "startswith k [] = True"
| "startswith [] (p # ps) = False"
| "startswith (c # cs) (p # ps) = (c = p \<and> startswith cs ps)"


section \<open>The cache: \<^verbatim>\<open>app/core/cache.py\<close>\<close>

text \<open>
  \<^verbatim>\<open>time.time()\<close> is an input of every operation that reads the clock; instants and
  durations are real numbers (the rounding of doubles is not modelled).
\<close>

record 'a CacheEntry =
  "value" :: "'a py_any"
  expires_at :: real

type_synonym 'a cache = "(string \<times> 'a CacheEntry) list"

definition SimpleCache_init :: "'a cache" where
  "SimpleCache_init = []"

definition SimpleCache_get ::
  "real \<Rightarrow> 'a cache \<Rightarrow> string \<Rightarrow> py_exn + ('a py_any \<times> 'a cache)" where
  "SimpleCache_get now c key =
     (case map_of c key of
        None \<Rightarrow> Inr (PyNone, c)
      | Some entry \<Rightarrow>
          if now > expires_at entry then
            (case py_del key c of
               Inl e \<Rightarrow> Inl e
             | Inr c' \<Rightarrow> Inr (PyNone, c'))
          else Inr (value entry, c))"

definition SimpleCache_set ::
  "real \<Rightarrow> 'a cache \<Rightarrow> string \<Rightarrow> 'a py_any \<Rightarrow> int \<Rightarrow> 'a cache" where
  "SimpleCache_set now c key v ttl_seconds =
     AList.update key \<lparr>value = v, expires_at = now + of_int ttl_seconds\<rparr> c"

definition SimpleCache_invalidate :: "'a cache \<Rightarrow> string \<Rightarrow> 'a cache" where
  "SimpleCache_invalidate c key = AList.delete key c"

text \<open>The loop \<^verbatim>\<open>for key in keys_to_remove: del self._cache[key]\<close>.\<close>

fun del_each :: "string list \<Rightarrow> 'a cache \<Rightarrow> py_exn + 'a cache" where
  "del_each [] c = Inr c"
| "del_each (key # keys) c =
     (case py_del key c of
        Inl e \<Rightarrow> Inl e
      | Inr c' \<Rightarrow> del_each keys c')"

definition SimpleCache_invalidate_prefix :: "'a cache \<Rightarrow> string \<Rightarrow> py_exn + 'a cache" where
  "SimpleCache_invalidate_prefix c prefix =
     (let keys_to_remove = filter (\<lambda>k. startswith k prefix) (map fst c)
      in del_each keys_to_remove c)"

definition SimpleCache_clear :: "'a cache \<Rightarrow> 'a cache" where
  "SimpleCache_clear c = []"


section \<open>The case routes: \<^verbatim>\<open>app/api/routes/cases.py\<close>\<close>

text \<open>
  The case service is outside this code.  An endpoint takes the awaited call as a function
  of its argument that returns the service's result or the exception it raised, and the
  store as the endpoint finds it when the call has returned.  An endpoint returns its
  response, or the \<^verbatim>\<open>HTTPException\<close> it raised, together with the store it leaves.
\<close>

datatype http_error = HTTPException nat

definition upload_case_document ::
  "('f \<Rightarrow> py_exn + 'r) \<Rightarrow> string \<Rightarrow> 'f \<Rightarrow> 'a cache \<Rightarrow> (http_error + 'r) \<times> 'a cache" where
  "upload_case_document create_case_from_upload user_id file c =
     (case create_case_from_upload file of
        Inr result \<Rightarrow> (Inr result, SimpleCache_invalidate c (''cases:'' @ user_id))
      | Inl e \<Rightarrow>
          if is_DomainError e then (Inl (HTTPException 400), c)
          else (Inl (HTTPException 500), c))"

definition analyze_case ::
  "(string \<Rightarrow> py_exn + 'r) \<Rightarrow> string \<Rightarrow> string \<Rightarrow> 'a cache \<Rightarrow> (http_error + 'r) \<times> 'a cache" where
  "analyze_case queue_analysis user_id case_id c =
     (case queue_analysis case_id of
        Inr queued \<Rightarrow> (Inr queued, SimpleCache_invalidate c (''cases:'' @ user_id))
      | Inl e \<Rightarrow>
          if e = CaseNotFound then (Inl (HTTPException 404), c)
          else if e = CaseMissingFile \<or> e = CaseExtractionFailed then (Inl (HTTPException 400), c)
          else if is_DomainError e then (Inl (HTTPException 400), c)
          else (Inl (HTTPException 500), c))"


section \<open>Case records and JSON values\<close>

text \<open>
  A Python number: \<^verbatim>\<open>bool\<close> is a subclass of \<^verbatim>\<open>int\<close>, and a \<^verbatim>\<open>float\<close> is read as
  the real number it stands for (no rounding, no overflow, no NaN).
\<close>

datatype pynum = PBool bool | PInt int | PFloat real

fun num_val :: "pynum \<Rightarrow> real" where
  "num_val (PBool b) = (if b then 1 else 0)"
| "num_val (PInt i) = of_int i"
| "num_val (PFloat r) = r"

text \<open>The values a decoded JSON document is made of.\<close>

datatype pyval =
    PNone
  | PNum pynum
  | PStr string
  | PList "pyval list"
  | PDict "(string \<times> pyval) list"

text \<open>Truth value testing, as in \<^verbatim>\<open>not case.get("signals")\<close>.\<close>

fun truthy :: "pyval \<Rightarrow> bool" where
  "truthy PNone = False"
| "truthy (PNum n) = (num_val n \<noteq> 0)"
| "truthy (PStr s) = (s \<noteq> [])"
| "truthy (PList xs) = (xs \<noteq> [])"
| "truthy (PDict d) = (d \<noteq> [])"

text \<open>\<^verbatim>\<open>d.get(k, default)\<close>.\<close>

definition py_get :: "(string \<times> 'v) list \<Rightarrow> string \<Rightarrow> 'v \<Rightarrow> 'v" where
  "py_get d k dflt = (case map_of d k of None \<Rightarrow> dflt | Some v \<Rightarrow> v)"

text \<open>
  The dictionary \<^verbatim>\<open>_get_cases_cached\<close> builds for a case always has the same five keys,
  so it is a record.  The types of the fields are those of the specification's data model:
  a string id, a status name, an optional number, and a nested JSON value whose shape the
  code itself tests.  The objects the case service returns have at least these attributes.
\<close>

record case_dict =
  case_id :: string
  status :: string
  risk_score :: "pynum option"
  signals :: pyval
  created_at :: pyval


section \<open>The analytics routes: \<^verbatim>\<open>app/api/routes/analytics.py\<close>\<close>

definition CACHE_TTL :: int where
  "CACHE_TTL = 30"

definition case_to_dict :: "'z case_dict_scheme \<Rightarrow> case_dict" where
  "case_to_dict c =
     \<lparr>case_id = case_id c, status = status c, risk_score = risk_score c,
      signals = signals c, created_at = created_at c\<rparr>"

text \<open>
  \<^verbatim>\<open>_get_cases_cached\<close>.  \<open>list_cases\<close> is what \<^verbatim>\<open>await service.list_cases()\<close> gives if
  it is called; \<open>t_get\<close> and \<open>t_set\<close> are the clock readings of the lookup and of the store.
\<close>

definition get_cases_cached ::
  "(py_exn + 'z case_dict_scheme list) \<Rightarrow> string \<Rightarrow> real \<Rightarrow> real \<Rightarrow> case_dict list cache
   \<Rightarrow> (py_exn + case_dict list) \<times> case_dict list cache" where
  "get_cases_cached list_cases user_id t_get t_set c =
     (let cache_key = ''cases:'' @ user_id in
      case SimpleCache_get t_get c cache_key of
        Inl e \<Rightarrow> (Inl e, c)
      | Inr (PyObj cached, c1) \<Rightarrow> (Inr cached, c1)
      | Inr (PyNone, c1) \<Rightarrow>
          (case list_cases of
             Inl e \<Rightarrow> (Inl e, c1)
           | Inr cases \<Rightarrow>
               let case_dicts = map case_to_dict cases
               in (Inr case_dicts,
                   SimpleCache_set t_set c1 cache_key (PyObj case_dicts) CACHE_TTL)))"

subsection \<open>Risk distribution\<close>

record buckets =
  low :: nat
  medium :: nat
  high :: nat
  critical :: nat

record risk_distribution =
  distribution :: buckets
  total_analyzed :: nat
  average_score :: pynum
  min_score :: pynum
  max_score :: pynum

text \<open>The body of the loop over the cases: the state is the bucket counts and the scores.\<close>

definition risk_step :: "case_dict \<Rightarrow> buckets \<times> pynum list \<Rightarrow> buckets \<times> pynum list" where
  "risk_step c acc =
     (case acc of (counts, scores) \<Rightarrow>
        if status c = ''analyzed'' \<and> risk_score c \<noteq> None then
          (case risk_score c of
             None \<Rightarrow> acc
           | Some s \<Rightarrow>
               (let scores' = scores @ [s] in
                if num_val s \<ge> 75 then (counts\<lparr>critical := critical counts + 1\<rparr>, scores')
                else if num_val s \<ge> 50 then (counts\<lparr>high := high counts + 1\<rparr>, scores')
                else if num_val s \<ge> 25 then (counts\<lparr>medium := medium counts + 1\<rparr>, scores')
                else (counts\<lparr>low := low counts + 1\<rparr>, scores')))
        else acc)"

text \<open>
  \<^verbatim>\<open>round(x, 1)\<close> on the real number: to the nearest tenth, a tie to the even one.
\<close>

definition py_round1 :: "real \<Rightarrow> real" where
  "py_round1 x =
     (let y = x * 10; f = \<lfloor>y\<rfloor>; d = y - of_int f
      in (if d < 1 / 2 then of_int f
          else if d > 1 / 2 then of_int (f + 1)
          else if even f then of_int f else of_int (f + 1)) / 10)"

text \<open>
  \<^verbatim>\<open>min\<close> and \<^verbatim>\<open>max\<close> of a list that is not empty: the first of the smallest (largest)
  elements.
\<close>

definition py_min :: "pynum \<Rightarrow> pynum list \<Rightarrow> pynum" where
  "py_min x xs = fold (\<lambda>y m. if num_val y < num_val m then y else m) xs x"

definition py_max :: "pynum \<Rightarrow> pynum list \<Rightarrow> pynum" where
  "py_max x xs = fold (\<lambda>y m. if num_val y > num_val m then y else m) xs x"

text \<open>
  The computation of the endpoint \<^verbatim>\<open>get_risk_distribution\<close>, from the list of cases to the
  response.
\<close>

definition compute_risk_distribution :: "case_dict list \<Rightarrow> risk_distribution" where
  "compute_risk_distribution cases =
     (case fold risk_step cases (\<lparr>low = 0, medium = 0, high = 0, critical = 0\<rparr>, []) of
        (counts, scores) \<Rightarrow>
          \<lparr>distribution = counts,
           total_analyzed = length scores,
           average_score =
             (if scores \<noteq> []
              then PFloat (py_round1 (sum_list (map num_val scores) / real (length scores)))
              else PInt 0),
           min_score = (case scores of [] \<Rightarrow> PInt 0 | x # xs \<Rightarrow> py_min x xs),
           max_score = (case scores of [] \<Rightarrow> PInt 0 | x # xs \<Rightarrow> py_max x xs)\<rparr>)"

definition http_of_exn :: "py_exn \<Rightarrow> http_error" where
  "http_of_exn e = (if is_DomainError e then HTTPException 400 else HTTPException 500)"

text \<open>
  The endpoints: an exception of the lookup or of the computation becomes a 400 for a
  \<^verbatim>\<open>DomainError\<close> and a 500 otherwise.
\<close>

definition get_risk_distribution ::
  "(py_exn + 'z case_dict_scheme list) \<Rightarrow> string \<Rightarrow> real \<Rightarrow> real \<Rightarrow> case_dict list cache
   \<Rightarrow> (http_error + risk_distribution) \<times> case_dict list cache" where
  "get_risk_distribution list_cases user_id t_get t_set c =
     (case get_cases_cached list_cases user_id t_get t_set c of
        (Inl e, c') \<Rightarrow> (Inl (http_of_exn e), c')
      | (Inr cases, c') \<Rightarrow> (Inr (compute_risk_distribution cases), c'))"

subsection \<open>Signal breakdown\<close>

text \<open>
  The statistics kept for a detector.  The loop works on \<open>signal_stats\<close>; the pass that
  computes the averages adds \<^verbatim>\<open>avg_score\<close> and deletes \<^verbatim>\<open>total_score\<close>, which gives
  \<open>signal_summary\<close>.  (\<open>peak_score\<close> is the key \<^verbatim>\<open>max_score\<close>.)
\<close>

record signal_base =
  name :: string
  triggered_count :: nat
  peak_score :: pynum
  case_ids :: "string list"

record signal_stats = signal_base +
  total_score :: real

record signal_summary = signal_base +
  avg_score :: pynum

type_synonym stats_dict = "(string \<times> signal_stats) list"

definition new_stats :: "string \<Rightarrow> signal_stats" where
  "new_stats detector_name =
     \<lparr>name = detector_name, triggered_count = 0, peak_score = PInt 0, case_ids = [],
      total_score = 0\<rparr>"

text \<open>\<^verbatim>\<open>max(a, b)\<close>: \<open>a\<close> unless \<open>b\<close> is larger.\<close>

definition py_max2 :: "pynum \<Rightarrow> pynum \<Rightarrow> pynum" where
  "py_max2 a b = (if num_val b > num_val a then b else a)"

text \<open>The body of the loop over the items of one case's detector breakdown.\<close>

definition detector_step :: "string \<Rightarrow> string \<times> pyval \<Rightarrow> stats_dict \<Rightarrow> py_exn + stats_dict" where
  "detector_step cid item signal_stats =
     (case item of (detector_name, detector_data) \<Rightarrow>
        (case detector_data of
           PDict d \<Rightarrow>
             (let score = py_get d ''score'' (PNum (PInt 0));
                  signal_stats1 =
                    (if map_of signal_stats detector_name = None
                     then AList.update detector_name (new_stats detector_name) signal_stats
                     else signal_stats)
              in case score of
                   PNum n \<Rightarrow>
                     if num_val n > 0 then
                       (case map_of signal_stats1 detector_name of
                          None \<Rightarrow> Inl KeyError
                        | Some stats \<Rightarrow>
                            Inr (AList.update detector_name
                                  (stats\<lparr>triggered_count := triggered_count stats + 1,
                                         total_score := total_score stats + num_val n,
                                         peak_score := py_max2 (peak_score stats) n,
                                         case_ids :=
                                           (if length (case_ids stats) < 10
                                            then case_ids stats @ [cid]
                                            else case_ids stats)\<rparr>)
                                  signal_stats1))
                     else Inr signal_stats1
                 | _ \<Rightarrow> Inl TypeError)
         | _ \<Rightarrow> Inr signal_stats))"

fun detector_loop :: "string \<Rightarrow> (string \<times> pyval) list \<Rightarrow> stats_dict \<Rightarrow> py_exn + stats_dict" where
  "detector_loop cid [] signal_stats = Inr signal_stats"
| "detector_loop cid (item # items) signal_stats =
     (case detector_step cid item signal_stats of
        Inl e \<Rightarrow> Inl e
      | Inr signal_stats' \<Rightarrow> detector_loop cid items signal_stats')"

text \<open>The body of the loop over the cases.\<close>

definition case_step :: "case_dict \<Rightarrow> stats_dict \<Rightarrow> py_exn + stats_dict" where
  "case_step c signal_stats =
     (if status c \<noteq> ''analyzed'' \<or> \<not> truthy (signals c) then Inr signal_stats
      else
        (case signals c of
           PDict sg \<Rightarrow>
             (case py_get sg ''detector_breakdown'' (PDict []) of
                PDict detector_breakdown \<Rightarrow>
                  detector_loop (case_id c) detector_breakdown signal_stats
              | _ \<Rightarrow> Inl AttributeError)
         | _ \<Rightarrow> Inl AttributeError))"

fun case_loop :: "case_dict list \<Rightarrow> stats_dict \<Rightarrow> py_exn + stats_dict" where
  "case_loop [] signal_stats = Inr signal_stats"
| "case_loop (c # cases) signal_stats =
     (case case_step c signal_stats of
        Inl e \<Rightarrow> Inl e
      | Inr signal_stats' \<Rightarrow> case_loop cases signal_stats')"

text \<open>The pass that computes the averages.\<close>

definition with_average :: "signal_stats \<Rightarrow> signal_summary" where
  "with_average stats =
     \<lparr>name = name stats, triggered_count = triggered_count stats,
      peak_score = peak_score stats, case_ids = case_ids stats,
      avg_score =
        (if triggered_count stats > 0
         then PFloat (py_round1 (total_score stats / real (triggered_count stats)))
         else PInt 0)\<rparr>"

text \<open>
  \<^verbatim>\<open>sorted(xs, key=f, reverse=True)\<close>: the list is reversed, sorted by a stable sort and
  reversed again, so that elements with equal keys keep their order.
\<close>

definition sorted_reverse :: "('a \<Rightarrow> nat) \<Rightarrow> 'a list \<Rightarrow> 'a list" where
  "sorted_reverse f xs = rev (sort_key f (rev xs))"

text \<open>
  The computation of the endpoint \<^verbatim>\<open>get_signal_breakdown\<close>, from the list of cases to the
  list under \<^verbatim>\<open>"signals"\<close>, or the exception raised on the way.
\<close>

definition compute_signal_breakdown :: "case_dict list \<Rightarrow> py_exn + signal_summary list" where
  "compute_signal_breakdown cases =
     (case case_loop cases [] of
        Inl e \<Rightarrow> Inl e
      | Inr signal_stats \<Rightarrow>
          Inr (sorted_reverse triggered_count (map (with_average \<circ> snd) signal_stats)))"

definition get_signal_breakdown ::
  "(py_exn + 'z case_dict_scheme list) \<Rightarrow> string \<Rightarrow> real \<Rightarrow> real \<Rightarrow> case_dict list cache
   \<Rightarrow> (http_error + signal_summary list) \<times> case_dict list cache" where
  "get_signal_breakdown list_cases user_id t_get t_set c =
     (case get_cases_cached list_cases user_id t_get t_set c of
        (Inl e, c') \<Rightarrow> (Inl (http_of_exn e), c')
      | (Inr cases, c') \<Rightarrow>
          (case compute_signal_breakdown cases of
             Inl e \<Rightarrow> (Inl (http_of_exn e), c')
           | Inr out \<Rightarrow> (Inr out, c')))"


section \<open>The specification's notions\<close>

subsection \<open>Risk buckets\<close>

text \<open>
  The score a record contributes: that of a record whose status is \<^verbatim>\<open>analyzed\<close> and
  whose score is present.
\<close>

definition counted_score :: "case_dict \<Rightarrow> pynum option" where
  "counted_score c = (if status c = ''analyzed'' then risk_score c else None)"

text \<open>
  The four buckets with the boundaries of the specification: low \<open>[0, 25)\<close>, medium
  \<open>[25, 50)\<close>, high \<open>[50, 75)\<close>, critical \<open>[75, 100]\<close>.
\<close>

datatype bucket = Low | Medium | High | Critical

definition spec_bucket :: "case_dict \<Rightarrow> bucket option" where
  "spec_bucket c =
     (case counted_score c of
        None \<Rightarrow> None
      | Some s \<Rightarrow>
          (let v = num_val s in
           if 0 \<le> v \<and> v < 25 then Some Low
           else if 25 \<le> v \<and> v < 50 then Some Medium
           else if 50 \<le> v \<and> v < 75 then Some High
           else if 75 \<le> v \<and> v \<le> 100 then Some Critical
           else None))"

fun increment :: "bucket \<Rightarrow> buckets \<Rightarrow> buckets" where
  "increment Low d = d\<lparr>low := low d + 1\<rparr>"
| "increment Medium d = d\<lparr>medium := medium d + 1\<rparr>"
| "increment High d = d\<lparr>high := high d + 1\<rparr>"
| "increment Critical d = d\<lparr>critical := critical d + 1\<rparr>"

definition in_bucket :: "bucket \<Rightarrow> case_dict list \<Rightarrow> nat" where
  "in_bucket b cases = length (filter (\<lambda>c. spec_bucket c = Some b) cases)"

subsection \<open>Detector visits\<close>

text \<open>
  The detector entries the loop goes through for a case, and the visits of a list of
  cases in the order of the scan: the case id, the detector name and the detector data.
\<close>

definition case_entries :: "case_dict \<Rightarrow> (string \<times> pyval) list" where
  "case_entries c =
     (if status c \<noteq> ''analyzed'' \<or> \<not> truthy (signals c) then []
      else
        (case signals c of
           PDict sg \<Rightarrow>
             (case py_get sg ''detector_breakdown'' (PDict []) of
                PDict detector_breakdown \<Rightarrow> detector_breakdown
              | _ \<Rightarrow> [])
         | _ \<Rightarrow> []))"

definition visits :: "case_dict list \<Rightarrow> (string \<times> string \<times> pyval) list" where
  "visits cases = concat (map (\<lambda>c. map (\<lambda>item. (case_id c, item)) (case_entries c)) cases)"

fun is_dict :: "pyval \<Rightarrow> bool" where
  "is_dict (PDict d) = True"
| "is_dict _ = False"

text \<open>A visit triggers its detector when the data is a dictionary whose score is above 0.\<close>

fun triggers :: "pyval \<Rightarrow> bool" where
  "triggers (PDict d) =
     (case py_get d ''score'' (PNum (PInt 0)) of PNum n \<Rightarrow> num_val n > 0 | _ \<Rightarrow> False)"
| "triggers _ = False"

text \<open>The ids of the cases that trigger a detector, in the order of the scan.\<close>

definition triggering_ids :: "string \<Rightarrow> case_dict list \<Rightarrow> string list" where
  "triggering_ids detector cases =
     map fst (filter (\<lambda>v. fst (snd v) = detector \<and> triggers (snd (snd v))) (visits cases))"

text \<open>
  The detectors in the order in which the scan first sees them: the first occurrences of
  the names of the visits whose data is a dictionary.
\<close>

fun first_occurrences :: "'a list \<Rightarrow> 'a list" where
  "first_occurrences [] = []"
| "first_occurrences (x # xs) = x # first_occurrences (filter (\<lambda>y. y \<noteq> x) xs)"

definition first_seen :: "case_dict list \<Rightarrow> string list" where
  "first_seen cases =
     first_occurrences (map (\<lambda>v. fst (snd v)) (filter (\<lambda>v. is_dict (snd (snd v))) (visits cases)))"

subsection \<open>Inputs on which the signal breakdown returns\<close>

text \<open>
  A detector entry is acceptable when it is not a dictionary (it is skipped) or its score
  is a number; a case is well shaped when the scan skips it, or its signals are a
  dictionary whose detector breakdown is a dictionary of acceptable entries.
\<close>

fun score_ok :: "pyval \<Rightarrow> bool" where
  "score_ok (PDict d) = (case py_get d ''score'' (PNum (PInt 0)) of PNum n \<Rightarrow> True | _ \<Rightarrow> False)"
| "score_ok _ = True"

definition well_shaped :: "case_dict \<Rightarrow> bool" where
  "well_shaped c =
     (if status c \<noteq> ''analyzed'' \<or> \<not> truthy (signals c) then True
      else
        (case signals c of
           PDict sg \<Rightarrow>
             (case py_get sg ''detector_breakdown'' (PDict []) of
                PDict detector_breakdown \<Rightarrow> list_all (\<lambda>item. score_ok (snd item)) detector_breakdown
              | _ \<Rightarrow> False)
         | _ \<Rightarrow> False))"


section \<open>Sample data\<close>

definition c_demo :: case_dict where
  "c_demo = \<lparr>case_id = ''a'', status = ''analyzed'', risk_score = Some (PInt 10),
     signals = PNone, created_at = PNone\<rparr>"

definition three_cases :: "case_dict list" where
  "three_cases =
     [\<lparr>case_id = ''a'', status = ''analyzed'', risk_score = Some (PInt 10),
       signals = PNone, created_at = PNone\<rparr>,
      \<lparr>case_id = ''b'', status = ''analyzed'', risk_score = Some (PInt 80),
       signals = PNone, created_at = PNone\<rparr>,
      \<lparr>case_id = ''c'', status = ''pending'', risk_score = Some (PInt 90),
       signals = PNone, created_at = PNone\<rparr>]"

definition d1_signals :: "int \<Rightarrow> pyval" where
  "d1_signals v =
     PDict [(''detector_breakdown'', PDict [(''d1'', PDict [(''score'', PNum (PInt v))])])]"

definition busy_cases :: "case_dict list" where
  "busy_cases =
     map (\<lambda>i. \<lparr>case_id = i, status = ''analyzed'', risk_score = None,
                signals = d1_signals 5, created_at = PNone\<rparr>)
       [''a'', ''b'', ''c'', ''d'', ''e'', ''f'', ''g'', ''h'', ''i'', ''j'', ''k'', ''l'']"

definition tie_cases :: "case_dict list" where
  "tie_cases =
     [\<lparr>case_id = ''x'', status = ''analyzed'', risk_score = None,
       signals = PDict [(''detector_breakdown'',
          PDict [(''dA'', PDict [(''score'', PNum (PInt 1))]),
                 (''dB'', PDict [(''score'', PNum (PFloat 1))]),
                 (''dC'', PDict [(''score'', PNum (PInt 2))])])],
       created_at = PNone\<rparr>,
      \<lparr>case_id = ''y'', status = ''analyzed'', risk_score = None,
       signals = PDict [(''detector_breakdown'',
          PDict [(''dC'', PDict [(''score'', PNum (PInt 1))])])],
       created_at = PNone\<rparr>]"


section \<open>Notions used in the proofs\<close>

text \<open>The two nested loops as one loop over the visits.\<close>

fun visit_loop :: "(string \<times> string \<times> pyval) list \<Rightarrow> stats_dict \<Rightarrow> py_exn + stats_dict" where
  "visit_loop [] st = Inr st"
| "visit_loop (v # vs) st =
     (case detector_step (fst v) (snd v) st of
        Inl e \<Rightarrow> Inl e
      | Inr st' \<Rightarrow> visit_loop vs st')"

text \<open>What the statistics hold for a detector (nothing yet for one not seen).\<close>

definition ids_of :: "stats_dict \<Rightarrow> string \<Rightarrow> string list" where
  "ids_of st n = (case map_of st n of None \<Rightarrow> [] | Some s \<Rightarrow> case_ids s)"

definition count_of :: "stats_dict \<Rightarrow> string \<Rightarrow> nat" where
  "count_of st n = (case map_of st n of None \<Rightarrow> 0 | Some s \<Rightarrow> triggered_count s)"

text \<open>Appending up to the cap of 10.\<close>

definition cap_append :: "'a list \<Rightarrow> 'a list \<Rightarrow> 'a list" where
  "cap_append xs ys = xs @ take (10 - length xs) ys"

text \<open>Keys are distinct, and an entry's \<^verbatim>\<open>name\<close> is its key.\<close>

definition well_keyed :: "stats_dict \<Rightarrow> bool" where
  "well_keyed st = (distinct (map fst st) \<and> (\<forall>kv\<in>set st. name (snd kv) = fst kv))"

text \<open>The statistics once the detector has its entry, and the update of a triggering visit.\<close>

definition ensured :: "string \<Rightarrow> stats_dict \<Rightarrow> stats_dict" where
  "ensured n st = (if map_of st n = None then AList.update n (new_stats n) st else st)"

definition hit :: "string \<Rightarrow> pynum \<Rightarrow> signal_stats \<Rightarrow> signal_stats" where
  "hit cid x s =
     s\<lparr>triggered_count := triggered_count s + 1,
       total_score := total_score s + num_val x,
       peak_score := py_max2 (peak_score s) x,
       case_ids := (if length (case_ids s) < 10 then case_ids s @ [cid] else case_ids s)\<rparr>"


section \<open>Properties of the cache\<close>

lemma startswith_iff: "startswith k p \<longleftrightarrow> (\<exists>s. k = p @ s)"
  by (induction k p rule: startswith.induct) auto

lemma py_del_present:
  "k \<in> fst ` set d \<Longrightarrow> py_del k d = Inr (filter (\<lambda>kv. fst kv \<noteq> k) d)"
proof -
  assume "k \<in> fst ` set d"
  then obtain v where "map_of d k = Some v"
    by (metis domD dom_map_of_conv_image_fst)
  moreover have "AList.delete k d = filter (\<lambda>kv. fst kv \<noteq> k) d"
    by (induction d) auto
  ultimately show ?thesis
    by (simp add: py_del_def)
qed

lemma del_each_filter:
  "distinct keys \<Longrightarrow> set keys \<subseteq> fst ` set c \<Longrightarrow>
   del_each keys c = Inr (filter (\<lambda>kv. fst kv \<notin> set keys) c)"
proof (induction keys arbitrary: c)
  case Nil
  then show ?case by simp
next
  case (Cons k ks)
  let ?c' = "filter (\<lambda>kv. fst kv \<noteq> k) c"
  from Cons.prems have del: "py_del k c = Inr ?c'"
    by (simp add: py_del_present)
  from Cons.prems have "set ks \<subseteq> fst ` set ?c'"
    by force
  with Cons.IH [of ?c'] Cons.prems
  have "del_each ks ?c' = Inr (filter (\<lambda>kv. fst kv \<notin> set ks) ?c')"
    by simp
  moreover have "filter (\<lambda>kv. fst kv \<notin> set ks) ?c' = filter (\<lambda>kv. fst kv \<notin> set (k # ks)) c"
    by (induction c) auto
  ultimately show ?case
    using del by simp
qed

lemma invalidate_prefix_filter:
  assumes "distinct (map fst c)"
  shows "SimpleCache_invalidate_prefix c p = Inr (filter (\<lambda>kv. \<not> startswith (fst kv) p) c)"
proof -
  let ?ks = "filter (\<lambda>k. startswith k p) (map fst c)"
  have "del_each ?ks c = Inr (filter (\<lambda>kv. fst kv \<notin> set ?ks) c)"
    using assms by (intro del_each_filter) auto
  moreover have "filter (\<lambda>kv. fst kv \<notin> set ?ks) c = filter (\<lambda>kv. \<not> startswith (fst kv) p) c"
    by (rule filter_cong) auto
  ultimately show ?thesis
    by (simp add: SimpleCache_invalidate_prefix_def)
qed

lemma map_of_filter_key:
  "map_of (filter (\<lambda>kv. P (fst kv)) c) k = (if P k then map_of c k else None)"
  by (induction c) auto

subsection \<open>Expiry\<close>

text \<open>
  Claim C1, as the specification states it, lets an entry expire as soon as the clock
  reaches \<^verbatim>\<open>expires_at\<close>.  The code compares with \<^verbatim>\<open>>\<close>: at the instant
  \<^verbatim>\<open>expires_at\<close> itself the entry is still returned and stays in the store.
\<close>

theorem get_at_expiry_counterexample:
  "expires_at \<lparr>value = PyObj (7::nat), expires_at = 100\<rparr> \<le> (100::real) \<and>
   SimpleCache_get 100 [(''k'', \<lparr>value = PyObj (7::nat), expires_at = 100\<rparr>)] ''k''
     = Inr (PyObj 7, [(''k'', \<lparr>value = PyObj 7, expires_at = 100\<rparr>)])"
  by (simp add: SimpleCache_get_def)

text \<open>
  Claim C1, amended: once the clock is strictly past the \<^verbatim>\<open>expires_at\<close> of the entry
  stored under a key, \<^verbatim>\<open>get(key)\<close> returns \<^verbatim>\<open>None\<close> and removes the entry, so that
  the key is absent from the store and every later \<^verbatim>\<open>get(key)\<close>, at any time, returns
  \<^verbatim>\<open>None\<close> and leaves the store as it is.
\<close>

theorem get_after_expiry:
  assumes "map_of c key = Some e" and "expires_at e < now"
  shows "SimpleCache_get now c key = Inr (PyNone, AList.delete key c)
         \<and> map_of (AList.delete key c) key = None
         \<and> (\<forall>t. SimpleCache_get t (AList.delete key c) key = Inr (PyNone, AList.delete key c))"
  using assms by (simp add: SimpleCache_get_def py_del_def AList.delete_conv')

theorem get_after_expiry_witness:
  "map_of [(''k'', \<lparr>value = PyObj (7::nat), expires_at = 100\<rparr>)] ''k''
     = Some \<lparr>value = PyObj 7, expires_at = 100\<rparr>
   \<and> expires_at \<lparr>value = PyObj (7::nat), expires_at = 100\<rparr> < 101
   \<and> SimpleCache_get 101 [(''k'', \<lparr>value = PyObj (7::nat), expires_at = 100\<rparr>)] ''k''
       = Inr (PyNone, [])"
  using get_after_expiry [of "[(''k'', \<lparr>value = PyObj (7::nat), expires_at = 100\<rparr>)]" "''k''"
      "\<lparr>value = PyObj 7, expires_at = 100\<rparr>" 101]
  by simp

subsection \<open>Invalidation by prefix\<close>

text \<open>
  Claim C9: for every store (a dictionary, so with distinct keys) and every prefix,
  \<^verbatim>\<open>invalidate_prefix(prefix)\<close> returns without raising, no key that starts with the prefix
  is present afterwards, and every key that does not start with it keeps its entry (value
  and expiration); the entries that stay keep their order.
\<close>

theorem invalidate_prefix_exact:
  assumes "distinct (map fst c)"
  shows "\<exists>c'. SimpleCache_invalidate_prefix c p = Inr c'
           \<and> (\<forall>k. (\<exists>s. k = p @ s) \<longrightarrow> map_of c' k = None)
           \<and> (\<forall>k. \<not> (\<exists>s. k = p @ s) \<longrightarrow> map_of c' k = map_of c k)
           \<and> c' = filter (\<lambda>kv. \<not> (\<exists>s. fst kv = p @ s)) c"
proof -
  let ?c' = "filter (\<lambda>kv. \<not> startswith (fst kv) p) c"
  have run: "SimpleCache_invalidate_prefix c p = Inr ?c'"
    by (rule invalidate_prefix_filter [OF assms])
  have look: "map_of ?c' k = (if \<not> startswith k p then map_of c k else None)" for k
    by (rule map_of_filter_key)
  have gone: "\<forall>k. (\<exists>s. k = p @ s) \<longrightarrow> map_of ?c' k = None"
    using look by (simp add: startswith_iff)
  have kept: "\<forall>k. \<not> (\<exists>s. k = p @ s) \<longrightarrow> map_of ?c' k = map_of c k"
    using look by (simp add: startswith_iff)
  have same: "?c' = filter (\<lambda>kv. \<not> (\<exists>s. fst kv = p @ s)) c"
    by (simp add: startswith_iff)
  from run gone kept same show ?thesis
    by blast
qed

theorem invalidate_prefix_exact_witness:
  "distinct (map fst [(''cases:u1'', \<lparr>value = PyObj (1::nat), expires_at = 5\<rparr>),
                      (''other'', \<lparr>value = PyNone, expires_at = 6\<rparr>),
                      (''cases:u2'', \<lparr>value = PyObj 2, expires_at = 7\<rparr>)])
   \<and> SimpleCache_invalidate_prefix
        [(''cases:u1'', \<lparr>value = PyObj (1::nat), expires_at = 5\<rparr>),
         (''other'', \<lparr>value = PyNone, expires_at = 6\<rparr>),
         (''cases:u2'', \<lparr>value = PyObj 2, expires_at = 7\<rparr>)] ''cases:''
       = Inr [(''other'', \<lparr>value = PyNone, expires_at = 6\<rparr>)]"
  using invalidate_prefix_exact [of "[(''cases:u1'', \<lparr>value = PyObj (1::nat), expires_at = 5\<rparr>),
         (''other'', \<lparr>value = PyNone, expires_at = 6\<rparr>),
         (''cases:u2'', \<lparr>value = PyObj 2, expires_at = 7\<rparr>)]" "''cases:''"]
  by (simp add: SimpleCache_invalidate_prefix_def py_del_def)

subsection \<open>Invalidation after a mutation\<close>

text \<open>
  Claim C3: for every user \<open>u\<close>, when the service call of the upload endpoint or of the
  analysis endpoint succeeds, the endpoint returns the service's result and leaves the
  store it found with \<^verbatim>\<open>invalidate("cases:" + u)\<close> applied as its last step; that store has
  no entry for the key \<^verbatim>\<open>"cases:" + u\<close>, and a lookup of the key returns \<^verbatim>\<open>None\<close>.
\<close>

theorem mutation_invalidates_cases_key:
  "(create_case_from_upload file = Inr result \<longrightarrow>
      upload_case_document create_case_from_upload u file c
        = (Inr result, SimpleCache_invalidate c (''cases:'' @ u)))
   \<and> (queue_analysis cid = Inr queued \<longrightarrow>
      analyze_case queue_analysis u cid c
        = (Inr queued, SimpleCache_invalidate c (''cases:'' @ u)))
   \<and> map_of (SimpleCache_invalidate c (''cases:'' @ u)) (''cases:'' @ u) = None
   \<and> (\<forall>t. SimpleCache_get t (SimpleCache_invalidate c (''cases:'' @ u)) (''cases:'' @ u)
            = Inr (PyNone, SimpleCache_invalidate c (''cases:'' @ u)))"
  by (simp add: upload_case_document_def analyze_case_def SimpleCache_invalidate_def
      SimpleCache_get_def AList.delete_conv')

theorem mutation_invalidates_cases_key_witness:
  "(\<lambda>f::nat. Inr (f + 1) :: py_exn + nat) 3 = Inr 4
   \<and> upload_case_document (\<lambda>f::nat. Inr (f + 1) :: py_exn + nat) ''u1'' 3
        [(''cases:u1'', \<lparr>value = PyObj (1::nat), expires_at = 5\<rparr>),
         (''cases:u2'', \<lparr>value = PyObj 2, expires_at = 7\<rparr>)]
      = (Inr 4, [(''cases:u2'', \<lparr>value = PyObj 2, expires_at = 7\<rparr>)])
   \<and> (\<lambda>i::string. Inr (i @ ''!'') :: py_exn + string) ''c9'' = Inr ''c9!''
   \<and> analyze_case (\<lambda>i::string. Inr (i @ ''!'') :: py_exn + string) ''u1'' ''c9''
        [(''cases:u1'', \<lparr>value = PyObj (1::nat), expires_at = 5\<rparr>),
         (''cases:u2'', \<lparr>value = PyObj 2, expires_at = 7\<rparr>)]
      = (Inr ''c9!'', [(''cases:u2'', \<lparr>value = PyObj 2, expires_at = 7\<rparr>)])"
  using mutation_invalidates_cases_key [of "\<lambda>f::nat. Inr (f + 1) :: py_exn + nat" 3 4 "''u1''"
        "[(''cases:u1'', \<lparr>value = PyObj (1::nat), expires_at = 5\<rparr>),
         (''cases:u2'', \<lparr>value = PyObj 2, expires_at = 7\<rparr>)]"
        "\<lambda>i::string. Inr (i @ ''!'') :: py_exn + string" "''c9''" "''c9!''"]
  by (simp add: SimpleCache_invalidate_def)

subsection \<open>A stored \<^verbatim>\<open>None\<close>\<close>

lemma get_after_set_None:
  "\<exists>c'. SimpleCache_get t (SimpleCache_set now c key PyNone ttl) key = Inr (PyNone, c')
        \<and> (c' = SimpleCache_set now c key PyNone ttl \<or> c' = AList.delete key c)"
  by (simp add: SimpleCache_get_def SimpleCache_set_def py_del_def AList.update_conv'
      AList.delete_update_same)

text \<open>
  Claim C10: for every key and every time to live, \<^verbatim>\<open>set(key, None, ttl)\<close> followed by
  \<^verbatim>\<open>get(key)\<close> returns \<^verbatim>\<open>None\<close>, which is also what \<^verbatim>\<open>get(key)\<close> returns for a key
  that is absent.  The cached-cases lookup therefore takes a stored \<^verbatim>\<open>None\<close> for a miss:
  it asks the case service again (its result, or its exception, is what comes back) and
  stores the new list under the key for 30 seconds.
\<close>

theorem none_value_is_a_miss:
  "(\<exists>c'. SimpleCache_get t (SimpleCache_set now c key PyNone ttl) key = Inr (PyNone, c'))
   \<and> (map_of c0 key = None \<longrightarrow> SimpleCache_get t c0 key = Inr (PyNone, c0))
   \<and> (\<exists>c1. get_cases_cached (Inr cases) u t_get t_set
              (SimpleCache_set now cc (''cases:'' @ u) PyNone ttl)
            = (Inr (map case_to_dict cases), c1)
          \<and> map_of c1 (''cases:'' @ u)
            = Some \<lparr>value = PyObj (map case_to_dict cases), expires_at = t_set + 30\<rparr>)
   \<and> (\<exists>c1. get_cases_cached (Inl e :: py_exn + case_dict list) u t_get t_set
              (SimpleCache_set now cc (''cases:'' @ u) PyNone ttl)
            = (Inl e, c1))"
proof -
  let ?k = "''cases:'' @ u"
  obtain c' where g: "SimpleCache_get t (SimpleCache_set now c key PyNone ttl) key = Inr (PyNone, c')"
    using get_after_set_None by blast
  obtain c2 where g2: "SimpleCache_get t_get (SimpleCache_set now cc ?k PyNone ttl) ?k = Inr (PyNone, c2)"
    using get_after_set_None by blast
  have a: "map_of c0 key = None \<longrightarrow> SimpleCache_get t c0 key = Inr (PyNone, c0)"
    by (simp add: SimpleCache_get_def)
  have b: "get_cases_cached (Inr cases) u t_get t_set (SimpleCache_set now cc ?k PyNone ttl)
      = (Inr (map case_to_dict cases),
         SimpleCache_set t_set c2 ?k (PyObj (map case_to_dict cases)) CACHE_TTL)"
    using g2 by (simp add: get_cases_cached_def Let_def)
  have b': "map_of (SimpleCache_set t_set c2 ?k (PyObj (map case_to_dict cases)) CACHE_TTL) ?k
      = Some \<lparr>value = PyObj (map case_to_dict cases), expires_at = t_set + 30\<rparr>"
    by (simp add: SimpleCache_set_def AList.update_conv' CACHE_TTL_def)
  have d: "get_cases_cached (Inl e :: py_exn + case_dict list) u t_get t_set
      (SimpleCache_set now cc ?k PyNone ttl) = (Inl e, c2)"
    using g2 by (simp add: get_cases_cached_def Let_def)
  from g a b b' d show ?thesis
    by blast
qed

theorem none_value_is_a_miss_witness:
  "map_of ([] :: nat cache) ''k'' = None
   \<and> SimpleCache_get 0 ([] :: nat cache) ''k'' = Inr (PyNone, [])
   \<and> SimpleCache_get 0 (SimpleCache_set 0 ([] :: nat cache) ''k'' PyNone 30) ''k''
       = Inr (PyNone, [(''k'', \<lparr>value = PyNone, expires_at = 30\<rparr>)])
   \<and> get_cases_cached (Inr [c_demo]) ''u1'' 1 2 (SimpleCache_set 0 [] ''cases:u1'' PyNone 30)
       = (Inr [c_demo], [(''cases:u1'', \<lparr>value = PyObj [c_demo], expires_at = 32\<rparr>)])"
  using none_value_is_a_miss [where t = 0 and now = 0 and c = "[] :: nat cache" and key = "''k''"
      and ttl = 30 and ?c0.0 = "[]" and cases = "[c_demo]" and u = "''u1''" and t_get = 1
      and t_set = 2 and cc = "[]"]
  by (simp add: SimpleCache_get_def SimpleCache_set_def get_cases_cached_def CACHE_TTL_def
      case_to_dict_def c_demo_def Let_def)

section \<open>Properties of the risk distribution\<close>

text \<open>
  Claim C5: for the three records (analyzed, 10), (analyzed, 80) and (pending, 90), whatever
  their other fields, the computation returns the distribution low 1, medium 0, high 0,
  critical 1, \<^verbatim>\<open>total_analyzed\<close> 2, \<^verbatim>\<open>average_score\<close> 45.0, \<^verbatim>\<open>min_score\<close> 10 and
  \<^verbatim>\<open>max_score\<close> 80: the pending record is left out.
\<close>

theorem risk_distribution_example:
  "compute_risk_distribution
     [\<lparr>case_id = i1, status = ''analyzed'', risk_score = Some (PInt 10),
       signals = s1, created_at = t1\<rparr>,
      \<lparr>case_id = i2, status = ''analyzed'', risk_score = Some (PInt 80),
       signals = s2, created_at = t2\<rparr>,
      \<lparr>case_id = i3, status = ''pending'', risk_score = Some (PInt 90),
       signals = s3, created_at = t3\<rparr>]
   = \<lparr>distribution = \<lparr>low = 1, medium = 0, high = 0, critical = 1\<rparr>,
      total_analyzed = 2, average_score = PFloat 45, min_score = PInt 10,
      max_score = PInt 80\<rparr>"
  by (simp add: compute_risk_distribution_def risk_step_def py_round1_def py_min_def
      py_max_def Let_def)

lemma risk_step_bucket:
  assumes "\<And>s. counted_score c = Some s \<Longrightarrow> 0 \<le> num_val s \<and> num_val s \<le> 100"
  shows "risk_step c (d, ss) =
           ((case spec_bucket c of None \<Rightarrow> d | Some b \<Rightarrow> increment b d),
            ss @ (case counted_score c of None \<Rightarrow> [] | Some s \<Rightarrow> [s]))"
  using assms
  by (auto simp: risk_step_def spec_bucket_def counted_score_def Let_def split: option.splits)

lemma fold_risk_step:
  assumes "\<forall>c\<in>set cases. \<forall>s. counted_score c = Some s \<longrightarrow> 0 \<le> num_val s \<and> num_val s \<le> 100"
  shows "fold risk_step cases (d, ss) =
           (\<lparr>low = low d + in_bucket Low cases, medium = medium d + in_bucket Medium cases,
             high = high d + in_bucket High cases,
             critical = critical d + in_bucket Critical cases\<rparr>,
            ss @ List.map_filter counted_score cases)"
  using assms
proof (induction cases arbitrary: d ss)
  case Nil
  then show ?case by (simp add: in_bucket_def List.map_filter_simps)
next
  case (Cons c cs)
  have step: "risk_step c (d, ss) =
           ((case spec_bucket c of None \<Rightarrow> d | Some b \<Rightarrow> increment b d),
            ss @ (case counted_score c of None \<Rightarrow> [] | Some s \<Rightarrow> [s]))"
    using Cons.prems by (intro risk_step_bucket) simp
  have rest: "\<forall>c\<in>set cs. \<forall>s. counted_score c = Some s \<longrightarrow> 0 \<le> num_val s \<and> num_val s \<le> 100"
    using Cons.prems by simp
  show ?case
  proof (cases "spec_bucket c")
    case None
    then show ?thesis
      using step Cons.IH [OF rest]
      by (simp add: in_bucket_def List.map_filter_simps split: option.splits)
  next
    case (Some b)
    then have "counted_score c \<noteq> None"
      by (auto simp: spec_bucket_def split: option.splits)
    with Some show ?thesis
      using step Cons.IH [OF rest]
      by (cases b) (auto simp: in_bucket_def List.map_filter_simps)
  qed
qed

lemma in_bucket_total:
  assumes "\<forall>c\<in>set cases. \<forall>s. counted_score c = Some s \<longrightarrow> 0 \<le> num_val s \<and> num_val s \<le> 100"
  shows "in_bucket Low cases + in_bucket Medium cases + in_bucket High cases
           + in_bucket Critical cases
         = length (List.map_filter counted_score cases)"
  using assms
proof (induction cases)
  case Nil
  then show ?case by (simp add: in_bucket_def List.map_filter_simps)
next
  case (Cons c cs)
  then have ih: "in_bucket Low cs + in_bucket Medium cs + in_bucket High cs + in_bucket Critical cs
         = length (List.map_filter counted_score cs)"
    by simp
  show ?case
  proof (cases "counted_score c")
    case None
    then show ?thesis
      using ih by (simp add: in_bucket_def List.map_filter_simps spec_bucket_def)
  next
    case (Some s)
    with Cons.prems have "0 \<le> num_val s \<and> num_val s \<le> 100"
      by simp
    with Some show ?thesis
      using ih by (auto simp: in_bucket_def List.map_filter_simps spec_bucket_def Let_def)
  qed
qed

text \<open>
  Claim C4: when every score that counts lies in \<open>[0, 100]\<close>, each bucket of the result
  counts exactly the records whose score lies within the bucket's boundaries (a score on a
  boundary belongs to the higher bucket); the step for a record increments the one bucket
  of its score, and no bucket for a record that is not analyzed or has no score; the four
  counts add up to the number of analyzed records with a score.
\<close>

theorem risk_buckets_exhaustive_disjoint:
  assumes "\<forall>c\<in>set cases. \<forall>s. counted_score c = Some s \<longrightarrow> 0 \<le> num_val s \<and> num_val s \<le> 100"
  shows "distribution (compute_risk_distribution cases)
           = \<lparr>low = in_bucket Low cases, medium = in_bucket Medium cases,
              high = in_bucket High cases, critical = in_bucket Critical cases\<rparr>
       \<and> (\<forall>c\<in>set cases. \<forall>d ss.
             fst (risk_step c (d, ss))
               = (case spec_bucket c of None \<Rightarrow> d | Some b \<Rightarrow> increment b d))
       \<and> (\<forall>c\<in>set cases.
             (spec_bucket c = None) = (status c \<noteq> ''analyzed'' \<or> risk_score c = None))
       \<and> in_bucket Low cases + in_bucket Medium cases + in_bucket High cases
             + in_bucket Critical cases
           = total_analyzed (compute_risk_distribution cases)"
proof -
  let ?d0 = "\<lparr>low = 0, medium = 0, high = 0, critical = 0\<rparr>"
  have run: "fold risk_step cases (?d0, []) =
      (\<lparr>low = in_bucket Low cases, medium = in_bucket Medium cases,
        high = in_bucket High cases, critical = in_bucket Critical cases\<rparr>,
       List.map_filter counted_score cases)"
    using fold_risk_step [OF assms, of ?d0 "[]"] by simp
  have a: "distribution (compute_risk_distribution cases)
           = \<lparr>low = in_bucket Low cases, medium = in_bucket Medium cases,
              high = in_bucket High cases, critical = in_bucket Critical cases\<rparr>"
    by (simp add: compute_risk_distribution_def run)
  have b: "\<forall>c\<in>set cases. \<forall>d ss.
             fst (risk_step c (d, ss))
               = (case spec_bucket c of None \<Rightarrow> d | Some b \<Rightarrow> increment b d)"
    using assms by (simp add: risk_step_bucket)
  have c: "\<forall>c\<in>set cases.
             (spec_bucket c = None) = (status c \<noteq> ''analyzed'' \<or> risk_score c = None)"
    using assms by (auto simp: spec_bucket_def counted_score_def Let_def split: option.splits)
  have d: "in_bucket Low cases + in_bucket Medium cases + in_bucket High cases
             + in_bucket Critical cases
           = total_analyzed (compute_risk_distribution cases)"
    using in_bucket_total [OF assms] by (simp add: compute_risk_distribution_def run)
  from a b c d show ?thesis
    by blast
qed

theorem risk_buckets_exhaustive_disjoint_witness:
  "distribution (compute_risk_distribution three_cases)
        = \<lparr>low = 1, medium = 0, high = 0, critical = 1\<rparr>
   \<and> in_bucket Low three_cases = 1 \<and> in_bucket Medium three_cases = 0
   \<and> in_bucket High three_cases = 0 \<and> in_bucket Critical three_cases = 1
   \<and> total_analyzed (compute_risk_distribution three_cases) = 2"
proof -
  have h: "\<forall>c\<in>set three_cases. \<forall>s. counted_score c = Some s \<longrightarrow> 0 \<le> num_val s \<and> num_val s \<le> 100"
    by (simp add: three_cases_def counted_score_def)
  have b: "in_bucket Low three_cases = 1 \<and> in_bucket Medium three_cases = 0
     \<and> in_bucket High three_cases = 0 \<and> in_bucket Critical three_cases = 1"
    by (simp add: three_cases_def in_bucket_def spec_bucket_def counted_score_def)
  show ?thesis
    using b risk_buckets_exhaustive_disjoint [OF h] by simp
qed


section \<open>Properties of the signal breakdown\<close>

subsection \<open>The loops as a scan of the visits\<close>

lemma cap_append_Nil [simp]: "cap_append xs [] = xs"
  by (simp add: cap_append_def)

lemma cap_append_assoc: "cap_append (cap_append xs ys) zs = cap_append xs (ys @ zs)"
  by (simp add: cap_append_def min_def)

lemma detector_loop_visit_loop:
  "detector_loop cid items st = visit_loop (map (\<lambda>item. (cid, item)) items) st"
  by (induction items arbitrary: st) (auto split: sum.splits)

lemma visit_loop_append:
  "visit_loop (xs @ ys) st =
     (case visit_loop xs st of Inl e \<Rightarrow> Inl e | Inr st' \<Rightarrow> visit_loop ys st')"
  by (induction xs arbitrary: st) (auto split: sum.splits)

lemma case_step_visit_loop:
  "case_step c st = Inr st' \<Longrightarrow>
   visit_loop (map (\<lambda>item. (case_id c, item)) (case_entries c)) st = Inr st'"
  by (auto simp: case_step_def case_entries_def detector_loop_visit_loop
      split: if_splits pyval.splits)

lemma case_loop_visit_loop:
  "case_loop cases st = Inr st' \<Longrightarrow> visit_loop (visits cases) st = Inr st'"
proof (induction cases arbitrary: st)
  case Nil
  then show ?case by (simp add: visits_def)
next
  case (Cons c cs)
  from Cons.prems obtain st1 where
    one: "case_step c st = Inr st1" and rest: "case_loop cs st1 = Inr st'"
    by (auto split: sum.splits)
  have "visits (c # cs) = map (\<lambda>item. (case_id c, item)) (case_entries c) @ visits cs"
    by (simp add: visits_def)
  then show ?case
    using case_step_visit_loop [OF one] Cons.IH [OF rest]
    by (simp add: visit_loop_append)
qed

subsection \<open>One step\<close>

lemma map_of_well_keyed:
  "well_keyed st \<Longrightarrow> map_of st n = Some s \<Longrightarrow> name s = n"
  by (auto simp: well_keyed_def dest!: map_of_SomeD)

lemma set_update_subset: "set (AList.update k v al) \<subseteq> insert (k, v) (set al)"
  by (induction al) auto

lemma well_keyed_update:
  assumes "well_keyed st" and "name s = n"
  shows "well_keyed (AList.update n s st)"
proof -
  have "distinct (map fst (AList.update n s st))"
    using assms(1) by (simp add: well_keyed_def distinct_update)
  moreover have "name (snd kv) = fst kv" if "kv \<in> set (AList.update n s st)" for kv
    using that set_update_subset [of n s st] assms by (auto simp: well_keyed_def)
  ultimately show ?thesis
    by (simp add: well_keyed_def)
qed

lemma ensured_keys:
  "map fst (ensured n st) = (if n \<in> set (map fst st) then map fst st else map fst st @ [n])"
  by (auto simp: ensured_def AList.update_keys map_of_eq_None_iff)

lemma ensured_ids: "ids_of (ensured n st) m = ids_of st m"
  by (auto simp: ensured_def ids_of_def AList.update_conv' new_stats_def)

lemma ensured_count: "count_of (ensured n st) m = count_of st m"
  by (auto simp: ensured_def count_of_def AList.update_conv' new_stats_def)

lemma ensured_well_keyed: "well_keyed st \<Longrightarrow> well_keyed (ensured n st)"
  by (simp add: ensured_def well_keyed_update new_stats_def)

lemma ensured_keeps_keys: "n \<in> set (map fst (ensured n st))"
  by (simp add: ensured_keys)

lemma detector_step_cases:
  assumes "detector_step cid (n, d) st = Inr st'"
  shows "(\<not> is_dict d \<and> st' = st)
       \<or> (is_dict d \<and> \<not> triggers d \<and> st' = ensured n st)
       \<or> (is_dict d \<and> triggers d \<and>
           (\<exists>s x. map_of (ensured n st) n = Some s \<and>
              st' = AList.update n (hit cid x s) (ensured n st)))"
proof (cases d)
  case (PDict items)
  show ?thesis
  proof (cases "py_get items ''score'' (PNum (PInt 0))")
    case (PNum x)
    with PDict assms show ?thesis
      by (auto simp: detector_step_def ensured_def hit_def Let_def
          split: if_splits option.splits)
  qed (use PDict assms in \<open>simp_all add: detector_step_def Let_def\<close>)
qed (use assms in \<open>simp_all add: detector_step_def\<close>)

lemma hit_ids: "case_ids (hit cid x s) = cap_append (case_ids s) [cid]"
  by (simp add: hit_def cap_append_def)

lemma detector_step_keys:
  assumes "detector_step cid (n, d) st = Inr st'"
  shows "map fst st' =
           (if is_dict d \<and> n \<notin> set (map fst st) then map fst st @ [n] else map fst st)"
  using detector_step_cases [OF assms] ensured_keeps_keys [of n st]
  by (auto simp: AList.update_keys ensured_keys simp del: set_map)

lemma detector_step_ids:
  assumes "detector_step cid (n, d) st = Inr st'"
  shows "ids_of st' m = cap_append (ids_of st m) (if m = n \<and> triggers d then [cid] else [])"
proof -
  from detector_step_cases [OF assms] consider
      "\<not> triggers d" "st' = st \<or> st' = ensured n st"
    | s x where "triggers d" "map_of (ensured n st) n = Some s"
        "st' = AList.update n (hit cid x s) (ensured n st)"
    by (cases d) auto
  then show ?thesis
  proof cases
    case 1
    then show ?thesis by (auto simp: ensured_ids)
  next
    case 2
    have "case_ids s = ids_of st n"
      using 2(2) ensured_ids [of n st n] by (simp add: ids_of_def)
    then show ?thesis
      using 2 ensured_ids [of n st m]
      by (simp add: ids_of_def AList.update_conv' hit_ids)
  qed
qed

lemma detector_step_count:
  assumes "detector_step cid (n, d) st = Inr st'"
  shows "count_of st' m = count_of st m + (if m = n \<and> triggers d then 1 else 0)"
proof -
  from detector_step_cases [OF assms] consider
      "\<not> triggers d" "st' = st \<or> st' = ensured n st"
    | s x where "triggers d" "map_of (ensured n st) n = Some s"
        "st' = AList.update n (hit cid x s) (ensured n st)"
    by (cases d) auto
  then show ?thesis
  proof cases
    case 1
    then show ?thesis by (auto simp: ensured_count)
  next
    case 2
    have "triggered_count s = count_of st n"
      using 2(2) ensured_count [of n st n] by (simp add: count_of_def)
    then show ?thesis
      using 2 ensured_count [of n st m]
      by (simp add: count_of_def AList.update_conv' hit_def)
  qed
qed

lemma detector_step_well_keyed:
  assumes "detector_step cid (n, d) st = Inr st'" and "well_keyed st"
  shows "well_keyed st'"
  using detector_step_cases [OF assms(1)] assms(2)
  by (auto simp: ensured_well_keyed hit_def
      intro!: well_keyed_update dest: map_of_well_keyed [OF ensured_well_keyed])

subsection \<open>The whole scan\<close>

lemma visit_loop_ids:
  "visit_loop vs st = Inr st' \<Longrightarrow>
   ids_of st' m =
     cap_append (ids_of st m)
       (map fst (filter (\<lambda>v. fst (snd v) = m \<and> triggers (snd (snd v))) vs))"
proof (induction vs arbitrary: st)
  case Nil
  then show ?case by simp
next
  case (Cons v vs)
  obtain cid n d where v: "v = (cid, n, d)"
    by (cases v) auto
  from Cons.prems obtain st1 where
    one: "detector_step cid (n, d) st = Inr st1" and rest: "visit_loop vs st1 = Inr st'"
    by (auto simp: v split: sum.splits)
  show ?case
    using Cons.IH [OF rest] detector_step_ids [OF one, of m]
    by (simp add: v cap_append_assoc)
qed

lemma visit_loop_count:
  "visit_loop vs st = Inr st' \<Longrightarrow>
   count_of st' m =
     count_of st m + length (filter (\<lambda>v. fst (snd v) = m \<and> triggers (snd (snd v))) vs)"
proof (induction vs arbitrary: st)
  case Nil
  then show ?case by simp
next
  case (Cons v vs)
  obtain cid n d where v: "v = (cid, n, d)"
    by (cases v) auto
  from Cons.prems obtain st1 where
    one: "detector_step cid (n, d) st = Inr st1" and rest: "visit_loop vs st1 = Inr st'"
    by (auto simp: v split: sum.splits)
  show ?case
    using Cons.IH [OF rest] detector_step_count [OF one, of m]
    by (simp add: v)
qed

lemma visit_loop_well_keyed:
  "visit_loop vs st = Inr st' \<Longrightarrow> well_keyed st \<Longrightarrow> well_keyed st'"
proof (induction vs arbitrary: st)
  case Nil
  then show ?case by simp
next
  case (Cons v vs)
  obtain cid n d where v: "v = (cid, n, d)"
    by (cases v) auto
  from Cons.prems obtain st1 where
    one: "detector_step cid (n, d) st = Inr st1" and rest: "visit_loop vs st1 = Inr st'"
    by (auto simp: v split: sum.splits)
  show ?case
    using Cons.IH [OF rest] detector_step_well_keyed [OF one] Cons.prems(2)
    by simp
qed

lemma visit_loop_keys:
  "visit_loop vs st = Inr st' \<Longrightarrow>
   map fst st' =
     map fst st @
     first_occurrences
       (filter (\<lambda>n. n \<notin> set (map fst st))
          (map (\<lambda>v. fst (snd v)) (filter (\<lambda>v. is_dict (snd (snd v))) vs)))"
proof (induction vs arbitrary: st)
  case Nil
  then show ?case by simp
next
  case (Cons v vs)
  obtain cid n d where v: "v = (cid, n, d)"
    by (cases v) auto
  from Cons.prems obtain st1 where
    one: "detector_step cid (n, d) st = Inr st1" and rest: "visit_loop vs st1 = Inr st'"
    by (auto simp: v split: sum.splits)
  let ?names = "map (\<lambda>v. fst (snd v)) (filter (\<lambda>v. is_dict (snd (snd v))) vs)"
  have keys1: "map fst st1 =
      (if is_dict d \<and> n \<notin> set (map fst st) then map fst st @ [n] else map fst st)"
    by (rule detector_step_keys [OF one])
  have ih: "map fst st' =
      map fst st1 @ first_occurrences (filter (\<lambda>n. n \<notin> set (map fst st1)) ?names)"
    by (rule Cons.IH [OF rest])
  show ?case
  proof (cases "is_dict d \<and> n \<notin> set (map fst st)")
    case True
    have "filter (\<lambda>m. m \<notin> set (map fst st @ [n])) ?names
        = filter (\<lambda>y. y \<noteq> n) (filter (\<lambda>m. m \<notin> set (map fst st)) ?names)"
      by (auto intro: filter_cong)
    with True ih keys1 show ?thesis
      by (simp add: v del: set_map set_append)
  next
    case False
    with ih keys1 show ?thesis
      by (auto simp: v)
  qed
qed

subsection \<open>When the computation returns\<close>

text \<open>
  The computation raises (\<^verbatim>\<open>AttributeError\<close>, \<^verbatim>\<open>TypeError\<close>) on a case that is not well
  shaped, and returns a result on every list of well shaped cases.
\<close>

lemma detector_step_returns:
  "(\<exists>st'. detector_step cid (n, d) st = Inr st') \<longleftrightarrow> score_ok d"
proof (cases d)
  case (PDict items)
  show ?thesis
  proof (cases "py_get items ''score'' (PNum (PInt 0))")
    case (PNum x)
    with PDict show ?thesis
      by (auto simp: detector_step_def Let_def AList.update_conv' split: option.splits)
  qed (use PDict in \<open>simp_all add: detector_step_def Let_def\<close>)
qed (simp_all add: detector_step_def)

lemma detector_loop_returns:
  "(\<exists>st'. detector_loop cid items st = Inr st') \<longleftrightarrow> list_all (\<lambda>item. score_ok (snd item)) items"
proof (induction items arbitrary: st)
  case Nil
  then show ?case by simp
next
  case (Cons item items)
  obtain n d where item: "item = (n, d)"
    by (cases item) auto
  show ?case
  proof (cases "detector_step cid (n, d) st")
    case (Inl e)
    then have "\<not> score_ok d"
      using detector_step_returns [of cid n d st] by auto
    with Inl show ?thesis
      by (simp add: item)
  next
    case (Inr st1)
    then have "score_ok d"
      using detector_step_returns [of cid n d st] by auto
    with Inr Cons.IH [of st1] show ?thesis
      by (simp add: item)
  qed
qed

lemma case_step_returns:
  "(\<exists>st'. case_step c st = Inr st') \<longleftrightarrow> well_shaped c"
  by (auto simp: case_step_def well_shaped_def detector_loop_returns split: pyval.splits)

lemma case_loop_returns:
  "(\<exists>st'. case_loop cases st = Inr st') \<longleftrightarrow> list_all well_shaped cases"
proof (induction cases arbitrary: st)
  case Nil
  then show ?case by simp
next
  case (Cons c cs)
  show ?case
  proof (cases "case_step c st")
    case (Inl e)
    then have "\<not> well_shaped c"
      using case_step_returns [of c st] by auto
    with Inl show ?thesis
      by simp
  next
    case (Inr st1)
    then have "well_shaped c"
      using case_step_returns [of c st] by auto
    with Inr Cons.IH [of st1] show ?thesis
      by simp
  qed
qed

lemma breakdown_returns:
  "(\<exists>out. compute_signal_breakdown cases = Inr out) \<longleftrightarrow> list_all well_shaped cases"
  using case_loop_returns [of cases "[]"]
  by (auto simp: compute_signal_breakdown_def split: sum.splits)

subsection \<open>Sorting\<close>

lemma set_sorted_reverse: "set (sorted_reverse f xs) = set xs"
  by (simp add: sorted_reverse_def)

lemma sorted_reverse_descending: "sorted_wrt (\<lambda>a b. f b \<le> f a) (sorted_reverse f xs)"
proof -
  have "sorted (map f (sort_key f (rev xs)))"
    by (rule sorted_sort_key)
  then have "sorted_wrt (\<lambda>a b. f a \<le> f b) (sort_key f (rev xs))"
    by (simp add: sorted_map)
  then show ?thesis
    by (simp add: sorted_reverse_def sorted_wrt_rev)
qed

lemma sorted_reverse_stable:
  "filter (\<lambda>y. f y = k) (sorted_reverse f xs) = filter (\<lambda>y. f y = k) xs"
proof -
  have "filter (\<lambda>y. f y = k) (sorted_reverse f xs)
      = rev (filter (\<lambda>y. f y = k) (sort_key f (rev xs)))"
    by (simp add: sorted_reverse_def rev_filter)
  also have "\<dots> = rev (filter (\<lambda>y. f y = k) (rev xs))"
    by (simp only: sort_key_stable)
  also have "\<dots> = filter (\<lambda>y. f y = k) xs"
    by (simp add: rev_filter)
  finally show ?thesis .
qed

lemma map_filter_distinct:
  assumes "distinct (map f xs)"
  shows "map f (filter P xs) = filter (\<lambda>y. y \<in> f ` {x \<in> set xs. P x}) (map f xs)"
proof -
  have inj: "inj_on f (set xs)"
    using assms by (simp add: distinct_map)
  have "filter (\<lambda>y. y \<in> f ` {x \<in> set xs. P x}) (map f xs)
      = map f (filter (\<lambda>x. f x \<in> f ` {x \<in> set xs. P x}) xs)"
    by (simp add: filter_map comp_def)
  also have "filter (\<lambda>x. f x \<in> f ` {x \<in> set xs. P x}) xs = filter P xs"
    using inj by (intro filter_cong) (auto dest: inj_onD)
  finally show ?thesis by simp
qed

subsection \<open>The result\<close>

lemma breakdown_run:
  assumes "compute_signal_breakdown cases = Inr out"
  obtains st where
    "visit_loop (visits cases) [] = Inr st"
    "out = sorted_reverse triggered_count (map (with_average \<circ> snd) st)"
    "well_keyed st"
    "map fst st = first_seen cases"
proof -
  from assms obtain st where
    loop: "case_loop cases [] = Inr st" and
    out: "out = sorted_reverse triggered_count (map (with_average \<circ> snd) st)"
    by (auto simp: compute_signal_breakdown_def split: sum.splits)
  have run: "visit_loop (visits cases) [] = Inr st"
    by (rule case_loop_visit_loop [OF loop])
  have wk: "well_keyed st"
    using visit_loop_well_keyed [OF run] by (simp add: well_keyed_def)
  have keys: "map fst st = first_seen cases"
    using visit_loop_keys [OF run] by (simp add: first_seen_def)
  from run out wk keys show ?thesis
    by (rule that)
qed

lemma summary_of_entry:
  assumes "well_keyed st" and "s \<in> set (map (with_average \<circ> snd) st)"
  shows "case_ids s = ids_of st (name s) \<and> triggered_count s = count_of st (name s)"
proof -
  from assms(2) obtain k e where mem: "(k, e) \<in> set st" and s: "s = with_average e"
    by auto
  have "name e = k"
    using assms(1) mem by (auto simp: well_keyed_def)
  moreover have "map_of st k = Some e"
    using assms(1) mem by (simp add: well_keyed_def)
  ultimately show ?thesis
    by (simp add: s with_average_def ids_of_def count_of_def)
qed

lemma names_of_summaries:
  "well_keyed st \<Longrightarrow> map name (map (with_average \<circ> snd) st) = map fst st"
  by (auto simp: well_keyed_def with_average_def)

lemma triggered_count_counts:
  assumes "compute_signal_breakdown cases = Inr out" and "s \<in> set out"
  shows "triggered_count s = length (triggering_ids (name s) cases)"
proof -
  from assms(1) obtain st where
    run: "visit_loop (visits cases) [] = Inr st" and
    out: "out = sorted_reverse triggered_count (map (with_average \<circ> snd) st)" and
    wk: "well_keyed st"
    by (rule breakdown_run)
  from assms(2) have "s \<in> set (map (with_average \<circ> snd) st)"
    by (simp add: out set_sorted_reverse)
  then have "triggered_count s = count_of st (name s)"
    using summary_of_entry [OF wk] by blast
  also have "\<dots> = length (triggering_ids (name s) cases)"
    using visit_loop_count [OF run, of "name s"]
    by (simp add: count_of_def triggering_ids_def)
  finally show ?thesis .
qed

subsection \<open>Evaluating the samples\<close>

lemma d1_case_step:
  "case_step \<lparr>case_id = i, status = ''analyzed'', risk_score = q,
              signals = d1_signals v, created_at = u\<rparr> st
   = detector_step i (''d1'', PDict [(''score'', PNum (PInt v))]) st"
  by (simp add: case_step_def d1_signals_def py_get_def split: sum.splits)

lemma d1_first:
  "detector_step i (''d1'', PDict [(''score'', PNum (PInt 5))]) []
   = Inr [(''d1'', \<lparr>name = ''d1'', triggered_count = 1, peak_score = PInt 5, case_ids = [i],
                    total_score = 5\<rparr>)]"
  by (simp add: detector_step_def py_get_def new_stats_def py_max2_def)

lemma d1_zero_first:
  "detector_step i (''d1'', PDict [(''score'', PNum (PInt 0))]) []
   = Inr [(''d1'', new_stats ''d1'')]"
  by (simp add: detector_step_def py_get_def)

lemma d1_zero_later:
  "detector_step i (''d1'', PDict [(''score'', PNum (PInt 0))]) [(''d1'', s)]
   = Inr [(''d1'', s)]"
  by (simp add: detector_step_def py_get_def)

lemma d1_later:
  "detector_step i (''d1'', PDict [(''score'', PNum (PInt 5))]) [(''d1'', s)]
   = Inr [(''d1'', s\<lparr>triggered_count := triggered_count s + 1,
                      total_score := total_score s + 5,
                      peak_score := py_max2 (peak_score s) (PInt 5),
                      case_ids := (if length (case_ids s) < 10 then case_ids s @ [i]
                                   else case_ids s)\<rparr>)]"
  by (simp add: detector_step_def py_get_def)

lemma d1_example_last: "compute_signal_breakdown
        [\<lparr>case_id = a, status = ''analyzed'', risk_score = r1,
          signals = d1_signals 5, created_at = t1\<rparr>,
         \<lparr>case_id = b, status = ''analyzed'', risk_score = r2,
          signals = d1_signals 5, created_at = t2\<rparr>,
         \<lparr>case_id = z, status = ''analyzed'', risk_score = r3,
          signals = d1_signals 0, created_at = t3\<rparr>]
      = Inr [\<lparr>name = ''d1'', triggered_count = 2, peak_score = PInt 5,
              case_ids = [a, b], avg_score = PFloat 5\<rparr>]"
  by (simp add: compute_signal_breakdown_def d1_case_step d1_first d1_zero_first d1_zero_later
      d1_later py_max2_def with_average_def sorted_reverse_def py_round1_def new_stats_def)

lemma d1_example_first: "compute_signal_breakdown
        [\<lparr>case_id = z, status = ''analyzed'', risk_score = r3,
          signals = d1_signals 0, created_at = t3\<rparr>,
         \<lparr>case_id = a, status = ''analyzed'', risk_score = r1,
          signals = d1_signals 5, created_at = t1\<rparr>,
         \<lparr>case_id = b, status = ''analyzed'', risk_score = r2,
          signals = d1_signals 5, created_at = t2\<rparr>]
      = Inr [\<lparr>name = ''d1'', triggered_count = 2, peak_score = PInt 5,
              case_ids = [a, b], avg_score = PFloat 5\<rparr>]"
  by (simp add: compute_signal_breakdown_def d1_case_step d1_first d1_zero_first d1_zero_later
      d1_later py_max2_def with_average_def sorted_reverse_def py_round1_def new_stats_def)

lemma d1_example_middle: "compute_signal_breakdown
        [\<lparr>case_id = a, status = ''analyzed'', risk_score = r1,
          signals = d1_signals 5, created_at = t1\<rparr>,
         \<lparr>case_id = z, status = ''analyzed'', risk_score = r3,
          signals = d1_signals 0, created_at = t3\<rparr>,
         \<lparr>case_id = b, status = ''analyzed'', risk_score = r2,
          signals = d1_signals 5, created_at = t2\<rparr>]
      = Inr [\<lparr>name = ''d1'', triggered_count = 2, peak_score = PInt 5,
              case_ids = [a, b], avg_score = PFloat 5\<rparr>]"
  by (simp add: compute_signal_breakdown_def d1_case_step d1_first d1_zero_first d1_zero_later
      d1_later py_max2_def with_average_def sorted_reverse_def py_round1_def new_stats_def)

lemma busy_run:
  "compute_signal_breakdown busy_cases
   = Inr [\<lparr>name = ''d1'', triggered_count = 12, peak_score = PInt 5,
           case_ids = [''a'', ''b'', ''c'', ''d'', ''e'', ''f'', ''g'', ''h'', ''i'', ''j''],
           avg_score = PFloat 5\<rparr>]"
  by (simp add: busy_cases_def compute_signal_breakdown_def d1_case_step d1_first d1_later py_max2_def
      with_average_def sorted_reverse_def py_round1_def new_stats_def)

lemma busy_ids:
  "triggering_ids ''d1'' busy_cases
   = [''a'', ''b'', ''c'', ''d'', ''e'', ''f'', ''g'', ''h'', ''i'', ''j'', ''k'', ''l'']"
  by (simp add: busy_cases_def triggering_ids_def visits_def case_entries_def d1_signals_def
      py_get_def)

lemma tie_run:
  "compute_signal_breakdown tie_cases
   = Inr [\<lparr>name = ''dC'', triggered_count = 2, peak_score = PInt 2,
           case_ids = [''x'', ''y''], avg_score = PFloat (3 / 2)\<rparr>,
          \<lparr>name = ''dA'', triggered_count = 1, peak_score = PInt 1,
           case_ids = [''x''], avg_score = PFloat 1\<rparr>,
          \<lparr>name = ''dB'', triggered_count = 1, peak_score = PFloat 1,
           case_ids = [''x''], avg_score = PFloat 1\<rparr>]"
  by (simp add: tie_cases_def compute_signal_breakdown_def case_step_def detector_step_def
      py_get_def py_max2_def with_average_def sorted_reverse_def py_round1_def new_stats_def)

lemma tie_first_seen: "first_seen tie_cases = [''dA'', ''dB'', ''dC'']"
  by (simp add: tie_cases_def first_seen_def visits_def case_entries_def py_get_def)

subsection \<open>Counts, samples and order\<close>

text \<open>
  Claim C6: a detector counts as triggered for a case only when its score is above 0: in
  every result, a detector's \<^verbatim>\<open>triggered_count\<close> is the number of visits of that
  detector whose score is above 0.  For two analyzed cases with \<^verbatim>\<open>d1\<close> at score 5 and one
  analyzed case with \<^verbatim>\<open>d1\<close> at score 0, in whichever place the latter comes, the result
  is the single entry \<^verbatim>\<open>d1\<close> with \<^verbatim>\<open>triggered_count\<close> 2, \<^verbatim>\<open>avg_score\<close> 5.0 and the ids
  of the two triggering cases.
\<close>

theorem signal_breakdown_example:
  "(compute_signal_breakdown cases = Inr out \<longrightarrow>
      (\<forall>s\<in>set out. triggered_count s = length (triggering_ids (name s) cases)))
   \<and> compute_signal_breakdown
        [\<lparr>case_id = a, status = ''analyzed'', risk_score = r1,
          signals = d1_signals 5, created_at = t1\<rparr>,
         \<lparr>case_id = b, status = ''analyzed'', risk_score = r2,
          signals = d1_signals 5, created_at = t2\<rparr>,
         \<lparr>case_id = z, status = ''analyzed'', risk_score = r3,
          signals = d1_signals 0, created_at = t3\<rparr>]
      = Inr [\<lparr>name = ''d1'', triggered_count = 2, peak_score = PInt 5,
              case_ids = [a, b], avg_score = PFloat 5\<rparr>]
   \<and> compute_signal_breakdown
        [\<lparr>case_id = z, status = ''analyzed'', risk_score = r3,
          signals = d1_signals 0, created_at = t3\<rparr>,
         \<lparr>case_id = a, status = ''analyzed'', risk_score = r1,
          signals = d1_signals 5, created_at = t1\<rparr>,
         \<lparr>case_id = b, status = ''analyzed'', risk_score = r2,
          signals = d1_signals 5, created_at = t2\<rparr>]
      = Inr [\<lparr>name = ''d1'', triggered_count = 2, peak_score = PInt 5,
              case_ids = [a, b], avg_score = PFloat 5\<rparr>]
   \<and> compute_signal_breakdown
        [\<lparr>case_id = a, status = ''analyzed'', risk_score = r1,
          signals = d1_signals 5, created_at = t1\<rparr>,
         \<lparr>case_id = z, status = ''analyzed'', risk_score = r3,
          signals = d1_signals 0, created_at = t3\<rparr>,
         \<lparr>case_id = b, status = ''analyzed'', risk_score = r2,
          signals = d1_signals 5, created_at = t2\<rparr>]
      = Inr [\<lparr>name = ''d1'', triggered_count = 2, peak_score = PInt 5,
              case_ids = [a, b], avg_score = PFloat 5\<rparr>]"
  using triggered_count_counts [of cases out]
    d1_example_last [of a r1 t1 b r2 t2 z r3 t3]
    d1_example_first [of z r3 t3 a r1 t1 b r2 t2]
    d1_example_middle [of a r1 t1 z r3 t3 b r2 t2]
  by blast

theorem signal_breakdown_example_witness:
  "compute_signal_breakdown tie_cases
     = Inr [\<lparr>name = ''dC'', triggered_count = 2, peak_score = PInt 2,
             case_ids = [''x'', ''y''], avg_score = PFloat (3 / 2)\<rparr>,
            \<lparr>name = ''dA'', triggered_count = 1, peak_score = PInt 1,
             case_ids = [''x''], avg_score = PFloat 1\<rparr>,
            \<lparr>name = ''dB'', triggered_count = 1, peak_score = PFloat 1,
             case_ids = [''x''], avg_score = PFloat 1\<rparr>]
   \<and> length (triggering_ids ''dC'' tie_cases) = 2
   \<and> length (triggering_ids ''dA'' tie_cases) = 1
   \<and> length (triggering_ids ''dB'' tie_cases) = 1"
proof -
  have "\<forall>s\<in>set [\<lparr>name = ''dC'', triggered_count = 2, peak_score = PInt 2,
             case_ids = [''x'', ''y''], avg_score = PFloat (3 / 2)\<rparr>,
            \<lparr>name = ''dA'', triggered_count = 1, peak_score = PInt 1,
             case_ids = [''x''], avg_score = PFloat 1\<rparr>,
            \<lparr>name = ''dB'', triggered_count = 1, peak_score = PFloat 1,
             case_ids = [''x''], avg_score = PFloat 1\<rparr>].
          triggered_count s = length (triggering_ids (name s) tie_cases)"
    by (rule signal_breakdown_example [THEN conjunct1, THEN mp, OF tie_run])
  then show ?thesis
    using tie_run by simp
qed

text \<open>
  Claim C7: for every list of records for which the computation returns, each detector's
  \<^verbatim>\<open>case_ids\<close> in the result has at most 10 elements and is the first 10 of the ids of
  the cases that triggered the detector, in the order of the scan: no later id takes the
  place of an earlier one.
\<close>

theorem sample_case_ids_capped:
  assumes "compute_signal_breakdown cases = Inr out"
  shows "\<forall>s\<in>set out. length (case_ids s) \<le> 10
           \<and> case_ids s = take 10 (triggering_ids (name s) cases)"
proof
  fix s assume "s \<in> set out"
  from assms obtain st where
    run: "visit_loop (visits cases) [] = Inr st" and
    out: "out = sorted_reverse triggered_count (map (with_average \<circ> snd) st)" and
    wk: "well_keyed st"
    by (rule breakdown_run)
  from \<open>s \<in> set out\<close> have "s \<in> set (map (with_average \<circ> snd) st)"
    by (simp add: out set_sorted_reverse)
  then have "case_ids s = ids_of st (name s)"
    using summary_of_entry [OF wk] by blast
  also have "\<dots> = take 10 (triggering_ids (name s) cases)"
    using visit_loop_ids [OF run, of "name s"]
    by (simp add: ids_of_def cap_append_def triggering_ids_def)
  finally show "length (case_ids s) \<le> 10
      \<and> case_ids s = take 10 (triggering_ids (name s) cases)"
    by simp
qed

theorem sample_case_ids_capped_witness:
  "compute_signal_breakdown busy_cases
     = Inr [\<lparr>name = ''d1'', triggered_count = 12, peak_score = PInt 5,
             case_ids = [''a'', ''b'', ''c'', ''d'', ''e'', ''f'', ''g'', ''h'', ''i'', ''j''],
             avg_score = PFloat 5\<rparr>]
   \<and> triggering_ids ''d1'' busy_cases
     = [''a'', ''b'', ''c'', ''d'', ''e'', ''f'', ''g'', ''h'', ''i'', ''j'', ''k'', ''l'']
   \<and> take 10 (triggering_ids ''d1'' busy_cases)
     = [''a'', ''b'', ''c'', ''d'', ''e'', ''f'', ''g'', ''h'', ''i'', ''j'']"
  using sample_case_ids_capped [OF busy_run] busy_run busy_ids
  by simp

text \<open>
  Claim C8: for every list of records for which the computation returns, the result is
  sorted by \<^verbatim>\<open>triggered_count\<close>, largest first; it lists each detector the scan saw
  once; and the detectors that share a \<^verbatim>\<open>triggered_count\<close> stand in the order in which
  the scan first saw them.
\<close>

theorem signals_sorted_by_count:
  assumes "compute_signal_breakdown cases = Inr out"
  shows "sorted_wrt (\<lambda>a b. triggered_count a \<ge> triggered_count b) out
       \<and> distinct (map name out)
       \<and> set (map name out) = set (first_seen cases)
       \<and> (\<forall>k. map name (filter (\<lambda>s. triggered_count s = k) out)
              = filter (\<lambda>n. n \<in> set (map name (filter (\<lambda>s. triggered_count s = k) out)))
                  (first_seen cases))"
proof -
  from assms obtain st where
    out: "out = sorted_reverse triggered_count (map (with_average \<circ> snd) st)" and
    wk: "well_keyed st" and
    keys: "map fst st = first_seen cases"
    by (rule breakdown_run)
  let ?L = "map (with_average \<circ> snd) st"
  have names: "map name ?L = first_seen cases"
    using names_of_summaries [OF wk] keys by simp
  have "distinct (map fst st)"
    using wk by (simp add: well_keyed_def)
  then have dist: "distinct (map name ?L)"
    by (simp only: names_of_summaries [OF wk])
  have same_set: "set out = set ?L"
    by (simp add: out set_sorted_reverse)
  have sorted: "sorted_wrt (\<lambda>a b. triggered_count a \<ge> triggered_count b) out"
    unfolding out by (rule sorted_reverse_descending)
  have ties: "map name (filter (\<lambda>s. triggered_count s = k) out)
      = filter (\<lambda>n. n \<in> set (map name (filter (\<lambda>s. triggered_count s = k) out)))
          (first_seen cases)" for k
  proof -
    have "filter (\<lambda>s. triggered_count s = k) out = filter (\<lambda>s. triggered_count s = k) ?L"
      unfolding out by (rule sorted_reverse_stable)
    moreover have "name ` {s \<in> set out. triggered_count s = k}
        = set (map name (filter (\<lambda>s. triggered_count s = k) out))"
      by simp
    ultimately show ?thesis
      using map_filter_distinct [OF dist, of "\<lambda>s. triggered_count s = k"]
      by (simp only: same_set names)
  qed
  have parts: "distinct ?L \<and> inj_on name (set ?L)"
    using dist by (simp only: distinct_map)
  then have "distinct out"
    by (simp only: out sorted_reverse_def distinct_rev distinct_sort)
  moreover have "inj_on name (set out)"
    using parts by (simp only: same_set)
  ultimately have dist_out: "distinct (map name out)"
    by (simp only: distinct_map)
  have set_out: "set (map name out) = set (first_seen cases)"
    using same_set names by (metis set_map)
  from sorted dist_out set_out ties show ?thesis
    by blast
qed

theorem signals_sorted_by_count_witness:
  "compute_signal_breakdown tie_cases
     = Inr [\<lparr>name = ''dC'', triggered_count = 2, peak_score = PInt 2,
             case_ids = [''x'', ''y''], avg_score = PFloat (3 / 2)\<rparr>,
            \<lparr>name = ''dA'', triggered_count = 1, peak_score = PInt 1,
             case_ids = [''x''], avg_score = PFloat 1\<rparr>,
            \<lparr>name = ''dB'', triggered_count = 1, peak_score = PFloat 1,
             case_ids = [''x''], avg_score = PFloat 1\<rparr>]
   \<and> first_seen tie_cases = [''dA'', ''dB'', ''dC'']
   \<and> filter (\<lambda>n. n \<in> set [''dA'', ''dB'']) (first_seen tie_cases) = [''dA'', ''dB'']"
proof -
  let ?out = "[\<lparr>name = ''dC'', triggered_count = 2, peak_score = PInt 2,
             case_ids = [''x'', ''y''], avg_score = PFloat (3 / 2)\<rparr>,
            \<lparr>name = ''dA'', triggered_count = 1, peak_score = PInt 1,
             case_ids = [''x''], avg_score = PFloat 1\<rparr>,
            \<lparr>name = ''dB'', triggered_count = 1, peak_score = PFloat 1,
             case_ids = [''x''], avg_score = PFloat 1\<rparr>]"
  have names: "map name (filter (\<lambda>s. triggered_count s = 1) ?out) = [''dA'', ''dB'']"
    by simp
  have "map name (filter (\<lambda>s. triggered_count s = 1) ?out)
      = filter (\<lambda>n. n \<in> set (map name (filter (\<lambda>s. triggered_count s = 1) ?out)))
          (first_seen tie_cases)"
    using signals_sorted_by_count [OF tie_run] by blast
  then have "[''dA'', ''dB'']
      = filter (\<lambda>n. n \<in> set [''dA'', ''dB'']) (first_seen tie_cases)"
    unfolding names .
  then have ties: "filter (\<lambda>n. n \<in> set [''dA'', ''dB'']) (first_seen tie_cases) = [''dA'', ''dB'']"
    by (rule sym)
  from tie_run tie_first_seen ties show ?thesis
    by (intro conjI)
qed

end
